theory Spec2Isabelle
  imports Complex_Main
begin

unbundle bit_operations_syntax

section \<open>Python values\<close>

text \<open>
  The repository is Python: \<^verbatim>\<open>canetti/digitallocker.py\<close> (lock, unlock) and
  \<^verbatim>\<open>canetti/canetti.py\<close> (set_l, gen, rep). An exception that leaves a function is a
  value \<open>Inl e\<close> of the result; a returned value is \<open>Inr v\<close>; Python's \<open>None\<close> as a
  returned value is \<open>Inr None\<close>.

  A Python \<open>str\<close> is the list of its code points, a \<open>bytes\<close> object the list of its
  bytes (numbers below 256). \<open>S\<close> reads an ASCII literal.
\<close>

datatype exn =
  ValueError | TypeError | NameError | IndexError | ZeroDivisionError | UnicodeEncodeError

type_synonym pystr = "nat list"
type_synonym pybytes = "nat list"

definition S :: "string \<Rightarrow> pystr" where
  "S cs = map of_char cs"

text \<open>
  The objects that reach the functions as the locker output \<open>c\<close>, as the hash algorithm
  \<open>alg\<close> and as helper-data entries: \<open>None\<close>, integers, strings, tuples and lists.
\<close>

datatype pyobj = PNone | PInt int | PStr pystr | PTuple "pyobj list" | PList "pyobj list"

text \<open>
  The locker key is passed through \<open>str(key)\<close>. The repository passes a \<open>str\<close>
  (digitallocker's own main) or a list of the integers of a reading (gen and rep); the
  integers are Python's \<open>int\<close>, as the annotation \<open>list[int]\<close> of the reading says.
\<close>

datatype pykey = KStr pystr | KInts "int list"

definition rbind :: "exn + 'a \<Rightarrow> ('a \<Rightarrow> exn + 'b) \<Rightarrow> exn + 'b" where
  "rbind m f = (case m of Inl e \<Rightarrow> Inl e | Inr x \<Rightarrow> f x)"

subsection \<open>Hexadecimal text: \<open>bytes.hex()\<close>, \<open>hex()\<close>, \<open>int(_, 16)\<close>, \<open>bytes.fromhex\<close>\<close>

definition hexdigit :: "nat \<Rightarrow> nat" where
  "hexdigit d = (if d < 10 then 48 + d else 87 + d)"

definition hexval :: "nat \<Rightarrow> nat option" where
  "hexval c =
     (if 48 \<le> c \<and> c \<le> 57 then Some (c - 48)
      else if 97 \<le> c \<and> c \<le> 102 then Some (c - 87)
      else if 65 \<le> c \<and> c \<le> 70 then Some (c - 55)
      else None)"

text \<open>\<open>bytes.hex()\<close>: two lower-case digits for each byte.\<close>

definition bytes_hex :: "pybytes \<Rightarrow> pystr" where
  "bytes_hex bs = concat (map (\<lambda>b. [hexdigit (b div 16), hexdigit (b mod 16)]) bs)"

text \<open>The digits of \<open>hex(n)\<close> for \<open>n \<ge> 0\<close>: no leading zero, \<open>0\<close> for zero.\<close>

function nat_hex :: "nat \<Rightarrow> pystr" where
  "nat_hex n = (if n < 16 then [hexdigit n] else nat_hex (n div 16) @ [hexdigit (n mod 16)])"
  by pat_completeness auto
termination
  by (relation "measure id") auto

declare nat_hex.simps [simp del]

definition py_hex :: "int \<Rightarrow> pystr" where
  "py_hex i = (if 0 \<le> i then S ''0x'' @ nat_hex (nat i) else S ''-0x'' @ nat_hex (nat (- i)))"

text \<open>
  \<open>int(s, 16)\<close> on a \<open>str\<close>: white space is stripped at both ends, then come an optional
  sign, an optional \<open>0x\<close> or \<open>0X\<close> that may be followed by one underscore, and digits with
  single underscores between them. Anything else raises \<open>ValueError\<close>. The white space
  is tab, line feed, vertical tab, form feed, carriage return and space. Python also
  reads the decimal digits and spaces of other scripts; here every code point above 127
  is rejected. An argument that is not a \<open>str\<close> raises \<open>TypeError\<close>.
\<close>

definition is_space :: "nat \<Rightarrow> bool" where
  "is_space c \<longleftrightarrow> (9 \<le> c \<and> c \<le> 13) \<or> c = 32"

definition strip :: "pystr \<Rightarrow> pystr" where
  "strip s = rev (dropWhile is_space (rev (dropWhile is_space s)))"

fun hex_digits :: "nat \<Rightarrow> pystr \<Rightarrow> nat option" where
  "hex_digits acc [] = Some acc"
| "hex_digits acc [c] =
     (case hexval c of None \<Rightarrow> None | Some v \<Rightarrow> Some (16 * acc + v))"
| "hex_digits acc (c # d # r) =
     (if c = 95 then
        (case hexval d of None \<Rightarrow> None | Some v \<Rightarrow> hex_digits (16 * acc + v) r)
      else
        (case hexval c of None \<Rightarrow> None | Some v \<Rightarrow> hex_digits (16 * acc + v) (d # r)))"

definition hex_literal :: "pystr \<Rightarrow> nat option" where
  "hex_literal s =
     (case s of
        [] \<Rightarrow> None
      | c # r \<Rightarrow> (case hexval c of None \<Rightarrow> None | Some v \<Rightarrow> hex_digits v r))"

definition drop_sign :: "pystr \<Rightarrow> pystr" where
  "drop_sign t = (case t of [] \<Rightarrow> [] | c # r \<Rightarrow> if c = 43 \<or> c = 45 then r else t)"

definition drop_prefix :: "pystr \<Rightarrow> pystr" where
  "drop_prefix u =
     (case u of
        c # x # r \<Rightarrow>
          if c = 48 \<and> (x = 120 \<or> x = 88)
          then (case r of [] \<Rightarrow> [] | y # r' \<Rightarrow> if y = 95 then r' else r)
          else u
      | _ \<Rightarrow> u)"

definition py_int16 :: "pystr \<Rightarrow> exn + int" where
  "py_int16 s =
     (let t = strip s;
          neg = (case t of [] \<Rightarrow> False | c # _ \<Rightarrow> c = 45)
      in case hex_literal (drop_prefix (drop_sign t)) of
           None \<Rightarrow> Inl ValueError
         | Some n \<Rightarrow> Inr (if neg then - int n else int n))"

definition py_int16_obj :: "pyobj \<Rightarrow> exn + int" where
  "py_int16_obj x = (case x of PStr s \<Rightarrow> py_int16 s | _ \<Rightarrow> Inl TypeError)"

text \<open>
  \<open>bytes.fromhex(s)\<close>, with \<open>None\<close> for its \<open>ValueError\<close>. unlock calls it on the text of
  \<open>hex(i)[2:]\<close> only, which holds no white space (the characters that Python would skip).
\<close>

fun py_fromhex :: "pystr \<Rightarrow> pybytes option" where
  "py_fromhex [] = Some []"
| "py_fromhex [c] = None"
| "py_fromhex (c # d # r) =
     (case hexval c of
        None \<Rightarrow> None
      | Some a \<Rightarrow>
          (case hexval d of
             None \<Rightarrow> None
           | Some b \<Rightarrow> map_option ((#) (16 * a + b)) (py_fromhex r)))"

subsection \<open>UTF-8: \<open>str.encode()\<close> and \<open>bytes.decode()\<close>\<close>

definition utf8_char :: "nat \<Rightarrow> pybytes option" where
  "utf8_char c =
     (if c < 0x80 then Some [c]
      else if c < 0x800 then Some [0xC0 + c div 64, 0x80 + c mod 64]
      else if 0xD800 \<le> c \<and> c \<le> 0xDFFF then None
      else if c < 0x10000 then
        Some [0xE0 + c div 4096, 0x80 + c div 64 mod 64, 0x80 + c mod 64]
      else if c < 0x110000 then
        Some [0xF0 + c div 262144, 0x80 + c div 4096 mod 64, 0x80 + c div 64 mod 64,
              0x80 + c mod 64]
      else None)"

text \<open>\<open>s.encode()\<close>: a lone surrogate raises \<open>UnicodeEncodeError\<close>.\<close>

fun encode :: "pystr \<Rightarrow> exn + pybytes" where
  "encode [] = Inr []"
| "encode (c # cs) =
     (case utf8_char c of
        None \<Rightarrow> Inl UnicodeEncodeError
      | Some bs \<Rightarrow> (case encode cs of Inl e \<Rightarrow> Inl e | Inr r \<Rightarrow> Inr (bs @ r)))"

definition cont :: "nat \<Rightarrow> bool" where
  "cont b \<longleftrightarrow> 0x80 \<le> b \<and> b \<le> 0xBF"

text \<open>
  \<open>b.decode()\<close>, with \<open>None\<close> for \<open>UnicodeDecodeError\<close>: the strict decoder, which refuses
  overlong forms, surrogates and code points above \<open>0x10FFFF\<close>.
\<close>

fun decode :: "pybytes \<Rightarrow> pystr option" where
  "decode [] = Some []"
| "decode (b # bs) =
     (if b < 0x80 then map_option ((#) b) (decode bs)
      else (case bs of
        [] \<Rightarrow> None
      | c1 # r1 \<Rightarrow>
          if 0xC2 \<le> b \<and> b \<le> 0xDF then
            (if cont c1
             then map_option ((#) ((b - 0xC0) * 64 + (c1 - 0x80))) (decode r1)
             else None)
          else (case r1 of
            [] \<Rightarrow> None
          | c2 # r2 \<Rightarrow>
              if 0xE0 \<le> b \<and> b \<le> 0xEF then
                (let cp = (b - 0xE0) * 4096 + (c1 - 0x80) * 64 + (c2 - 0x80)
                 in if cont c1 \<and> cont c2 \<and> 0x800 \<le> cp \<and> \<not> (0xD800 \<le> cp \<and> cp \<le> 0xDFFF)
                    then map_option ((#) cp) (decode r2)
                    else None)
              else (case r2 of
                [] \<Rightarrow> None
              | c3 # r3 \<Rightarrow>
                  if 0xF0 \<le> b \<and> b \<le> 0xF4 then
                    (let cp = (b - 0xF0) * 262144 + (c1 - 0x80) * 4096
                              + (c2 - 0x80) * 64 + (c3 - 0x80)
                     in if cont c1 \<and> cont c2 \<and> cont c3 \<and> 0x10000 \<le> cp \<and> cp < 0x110000
                        then map_option ((#) cp) (decode r3)
                        else None)
                  else None))))"

declare decode.simps [simp del]

subsection \<open>Text of keys and of byte strings: \<open>str(key)\<close>, \<open>str(b)\<close>\<close>

function nat_dec :: "nat \<Rightarrow> pystr" where
  "nat_dec n = (if n < 10 then [48 + n] else nat_dec (n div 10) @ [48 + n mod 10])"
  by pat_completeness auto
termination
  by (relation "measure id") auto

declare nat_dec.simps [simp del]

definition py_dec :: "int \<Rightarrow> pystr" where
  "py_dec i = (if 0 \<le> i then nat_dec (nat i) else 45 # nat_dec (nat (- i)))"

fun join :: "pystr \<Rightarrow> pystr list \<Rightarrow> pystr" where
  "join sep [] = []"
| "join sep [x] = x"
| "join sep (x # y # r) = x @ sep @ join sep (y # r)"

text \<open>\<open>str(key)\<close>: a \<open>str\<close> is itself, a list of integers is \<open>[1, 0, 1]\<close>.\<close>

definition py_str :: "pykey \<Rightarrow> pystr" where
  "py_str key =
     (case key of
        KStr s \<Rightarrow> s
      | KInts xs \<Rightarrow> S ''['' @ join (S '', '') (map py_dec xs) @ S '']'')"

text \<open>
  \<open>str(b)\<close> of a \<open>bytes\<close> object is its \<open>repr\<close>: the letter b, a quote (the double quote
  when the bytes hold a single quote and no double quote), each byte as itself or
  escaped, and the quote again. 39 is the single quote, 34 the double quote, 92 the
  backslash.
\<close>

definition repr_byte :: "nat \<Rightarrow> nat \<Rightarrow> pystr" where
  "repr_byte q c =
     (if c = q \<or> c = 92 then [92, c]
      else if c = 9 then [92, 116]
      else if c = 10 then [92, 110]
      else if c = 13 then [92, 114]
      else if c < 32 \<or> 127 \<le> c then [92, 120, hexdigit (c div 16), hexdigit (c mod 16)]
      else [c])"

definition bytes_repr :: "pybytes \<Rightarrow> pystr" where
  "bytes_repr bs =
     (let q = (if 39 \<in> set bs \<and> 34 \<notin> set bs then 34 else 39)
      in [98, q] @ concat (map (repr_byte q) bs) @ [q])"

subsection \<open>Unpacking, indexing, slices\<close>

text \<open>
  \<open>a, b = c\<close>: a sequence of two items unpacks, a sequence of another length raises
  \<open>ValueError\<close>, an object that is no sequence raises \<open>TypeError\<close>.
\<close>

fun unpack2 :: "pyobj \<Rightarrow> exn + pyobj \<times> pyobj" where
  "unpack2 (PTuple xs) =
     (case xs of [a, b] \<Rightarrow> Inr (a, b) | _ \<Rightarrow> Inl ValueError)"
| "unpack2 (PList xs) =
     (case xs of [a, b] \<Rightarrow> Inr (a, b) | _ \<Rightarrow> Inl ValueError)"
| "unpack2 (PStr s) =
     (case s of [a, b] \<Rightarrow> Inr (PStr [a], PStr [b]) | _ \<Rightarrow> Inl ValueError)"
| "unpack2 (PInt i) = Inl TypeError"
| "unpack2 PNone = Inl TypeError"

text \<open>\<open>ji[j]\<close> for \<open>j \<ge> 0\<close>.\<close>

definition seq_item :: "pyobj \<Rightarrow> nat \<Rightarrow> exn + pyobj" where
  "seq_item ji j =
     (case ji of
        PTuple xs \<Rightarrow> if j < length xs then Inr (xs ! j) else Inl IndexError
      | PList xs \<Rightarrow> if j < length xs then Inr (xs ! j) else Inl IndexError
      | PStr s \<Rightarrow> if j < length s then Inr (PStr [s ! j]) else Inl IndexError
      | _ \<Rightarrow> Inl TypeError)"

text \<open>\<open>w[x]\<close> on a list: a negative index counts from the end.\<close>

definition reading_item :: "int list \<Rightarrow> pyobj \<Rightarrow> exn + int" where
  "reading_item w x =
     (case x of
        PInt i \<Rightarrow>
          (let n = int (length w);
               j = (if i < 0 then i + n else i)
           in if 0 \<le> j \<and> j < n then Inr (w ! nat j) else Inl IndexError)
      | _ \<Rightarrow> Inl TypeError)"

text \<open>A list comprehension: the items in order, stopping at the first exception.\<close>

fun collect :: "(nat \<Rightarrow> exn + 'a) \<Rightarrow> nat list \<Rightarrow> exn + 'a list" where
  "collect f [] = Inr []"
| "collect f (j # js) =
     (case f j of
        Inl e \<Rightarrow> Inl e
      | Inr x \<Rightarrow> (case collect f js of Inl e \<Rightarrow> Inl e | Inr xs \<Rightarrow> Inr (x # xs)))"

text \<open>\<open>"0" * s\<close>, \<open>val[-s:]\<close> and \<open>val.rstrip("0")\<close>; 48 is the character 0.\<close>

definition zeros :: "int \<Rightarrow> pystr" where
  "zeros s = replicate (nat s) 48"

definition tail_slice :: "pystr \<Rightarrow> int \<Rightarrow> pystr" where
  "tail_slice val s = (if 0 < s then drop (length val - nat s) val else drop (nat (- s)) val)"

definition rstrip0 :: "pystr \<Rightarrow> pystr" where
  "rstrip0 val = rev (dropWhile (\<lambda>c. c = 48) (rev val))"

section \<open>digitallocker.py\<close>

text \<open>
  \<open>hashlib\<close> is outside the repository and is a parameter: the set
  \<open>algorithms_guaranteed\<close>, and for an algorithm name and a message the number
  \<open>int(h.hexdigest(), 16)\<close>, where \<open>h\<close> is \<open>hashlib.new(name)\<close> after \<open>h.update(message)\<close>.
  It is \<open>None\<close> where \<open>hexdigest()\<close> cannot be called without a length (the SHAKE
  algorithms), which raises \<open>TypeError\<close>.
\<close>

record hashlib =
  algorithms_guaranteed :: "pystr set"
  hexdigest :: "pystr \<Rightarrow> pybytes \<Rightarrow> nat option"

definition isinstance_str :: "pyobj \<Rightarrow> bool" where
  "isinstance_str x = (case x of PStr _ \<Rightarrow> True | _ \<Rightarrow> False)"

text \<open>The name given to \<open>hashlib.new\<close> (lines 44-48 of lock, 86-90 of unlock).\<close>

definition hash_alg :: "hashlib \<Rightarrow> pyobj \<Rightarrow> pystr" where
  "hash_alg hl alg =
     (if \<not> isinstance_str alg \<or> alg \<notin> PStr ` algorithms_guaranteed hl
      then S ''sha256''
      else (case alg of PStr a \<Rightarrow> a | _ \<Rightarrow> S ''sha256''))"

definition nonce_key_hash :: "hashlib \<Rightarrow> pyobj \<Rightarrow> pystr \<Rightarrow> exn + nat" where
  "nonce_key_hash hl alg text =
     rbind (encode text) (\<lambda>m.
       case hexdigest hl (hash_alg hl alg) m of
         None \<Rightarrow> Inl TypeError
       | Some h \<Rightarrow> Inr h)"

text \<open>
  \<open>lock(key, val, s=s, alg=alg, nbytes=nbytes)\<close>, where \<open>nb\<close> is the value of
  \<open>secrets.token_bytes(nbytes)\<close>.
\<close>

definition lock :: "hashlib \<Rightarrow> pybytes \<Rightarrow> pykey \<Rightarrow> pystr \<Rightarrow> int \<Rightarrow> pyobj \<Rightarrow> exn + pystr \<times> pystr" where
  "lock hl nb key val s alg =
     (let nonce = bytes_hex nb in
      rbind (nonce_key_hash hl alg (nonce @ py_str key)) (\<lambda>h.
      let val_zero_str = val @ zeros s in
      rbind (encode val_zero_str) (\<lambda>e.
      rbind (py_int16 (bytes_hex e)) (\<lambda>v.
      let xor_val = int h XOR v in
      Inr (nonce, drop 2 (py_hex xor_val))))))"

text \<open>\<open>nonce + str(key)\<close>: the nonce taken from \<open>c\<close> has to be a \<open>str\<close>.\<close>

definition add_str :: "pyobj \<Rightarrow> pystr \<Rightarrow> exn + pystr" where
  "add_str x t = (case x of PStr a \<Rightarrow> Inr (a @ t) | _ \<Rightarrow> Inl TypeError)"

text \<open>\<open>unlock(key, c, s=s, alg=alg)\<close>.\<close>

definition unlock :: "hashlib \<Rightarrow> pykey \<Rightarrow> pyobj \<Rightarrow> int \<Rightarrow> pyobj \<Rightarrow> exn + pystr option" where
  "unlock hl key c s alg =
     (case unpack2 c of
        Inl ValueError \<Rightarrow> Inr None
      | Inl e \<Rightarrow> Inl e
      | Inr (nonce, xor_val) \<Rightarrow>
          rbind (add_str nonce (py_str key)) (\<lambda>text.
          rbind (nonce_key_hash hl alg text) (\<lambda>h.
          rbind (py_int16_obj xor_val) (\<lambda>x.
          let val_zero_str = int h XOR x in
          (case Option.bind (py_fromhex (drop 2 (py_hex val_zero_str))) decode of
             None \<Rightarrow> Inr None
           | Some val \<Rightarrow>
               Inr (if zeros s = tail_slice val s then Some (rstrip0 val) else None))))))"

section \<open>canetti.py\<close>

text \<open>
  \<open>set_l(n, k, t, delta)\<close>. \<open>n\<close> and \<open>k\<close> are integers, \<open>t\<close> and \<open>delta\<close> floats. The floats
  and \<open>math.log\<close>, \<open>math.log2\<close> are taken as real numbers and real functions: rounding,
  overflow and not-a-number are outside this model. \<open>math.ceil\<close> gives an integer, so the
  power is a power of integers; \<open>int(x)\<close> drops the fraction of \<open>x\<close> (towards zero);
  \<open>4 / delta\<close> raises \<open>ZeroDivisionError\<close> at \<open>delta = 0\<close>.
\<close>

definition py_int_of_float :: "real \<Rightarrow> int" where
  "py_int_of_float x = (if 0 \<le> x then \<lfloor>x\<rfloor> else \<lceil>x\<rceil>)"

definition set_l :: "int \<Rightarrow> int \<Rightarrow> real \<Rightarrow> real \<Rightarrow> exn + int" where
  "set_l n k t delta =
     (if n < 2 \<or> k < 1 \<or> t < 1 \<or> delta < 0 \<or> delta > 1 then Inr 0
      else if delta = 0 then Inl ZeroDivisionError
      else Inr (py_int_of_float
             (real_of_int (n ^ nat \<lceil>(t * real_of_int k) / (real_of_int n * ln (real_of_int n))\<rceil>)
              * log 2 (4 / delta))))"

text \<open>
  The list comprehension of gen and rep, \<open>[w[ji[j]] for j in range(0, k)]\<close>.
\<close>

definition sub_pattern :: "int \<Rightarrow> int list \<Rightarrow> pyobj \<Rightarrow> exn + int list" where
  "sub_pattern k w ji = collect (\<lambda>j. rbind (seq_item ji j) (reading_item w)) [0..<nat k]"

text \<open>
  What gen draws at random is an argument: \<open>token\<close> is the value of
  \<open>secrets.token_bytes(k // 8)\<close>, \<open>indices i\<close> the value of
  \<open>np.random.randint(low=0, high=n, size=k)\<close> in round \<open>i\<close> of the loop, and \<open>nonces i\<close> the
  value of \<open>secrets.token_bytes(16)\<close> in the call of lock of that round.
\<close>

record draws =
  token :: pybytes
  indices :: "nat \<Rightarrow> int list"
  nonces :: "nat \<Rightarrow> pybytes"

text \<open>
  The loop of gen over the rounds \<open>is\<close>, with the key text \<open>r\<close>. An entry of the helper
  data is the tuple \<open>(ci, ji)\<close>, where \<open>ci\<close> is the tuple returned by lock.
\<close>

fun gen_loop ::
  "hashlib \<Rightarrow> draws \<Rightarrow> int list \<Rightarrow> int \<Rightarrow> pystr \<Rightarrow> nat list \<Rightarrow> exn + pyobj list" where
  "gen_loop hl rnd w k r [] = Inr []"
| "gen_loop hl rnd w k r (i # is) =
     (let ji = PList (map PInt (indices rnd i)) in
      rbind (sub_pattern k w ji) (\<lambda>vi.
      rbind (lock hl (nonces rnd i) (KInts vi) r 16 (PStr (S ''sha-256''))) (\<lambda>ci.
      rbind (gen_loop hl rnd w k r is) (\<lambda>p.
      Inr (PTuple [PTuple [PStr (fst ci), PStr (snd ci)], ji] # p)))))"

text \<open>
  \<open>gen(w, k, t, delta)\<close>. \<open>secrets.token_bytes\<close> raises \<open>ValueError\<close> on a negative length.
\<close>

definition gen ::
  "hashlib \<Rightarrow> draws \<Rightarrow> int list \<Rightarrow> int \<Rightarrow> real \<Rightarrow> real \<Rightarrow> exn + pystr \<times> pyobj list" where
  "gen hl rnd w k t delta =
     (let n = int (length w) in
      if k div 8 < 0 then Inl ValueError
      else
        let r = bytes_repr (token rnd) in
        rbind (set_l n k t delta) (\<lambda>l.
        rbind (gen_loop hl rnd w k r [0..<nat l]) (\<lambda>p.
        Inr (r, p))))"

text \<open>\<open>if ri:\<close> holds for a string that is not empty.\<close>

definition truthy :: "pystr option \<Rightarrow> bool" where
  "truthy ri = (case ri of None \<Rightarrow> False | Some v \<Rightarrow> v \<noteq> [])"

text \<open>
  \<open>rep(wprime, p)\<close>. The name \<open>k\<close> in the body of rep is neither a parameter nor a local
  variable: Python looks it up among the module's globals when the line runs.
  \<open>kglobal\<close> is that global: \<open>None\<close> when the module defines no \<open>k\<close> (the module imported;
  the name is bound only under \<open>if __name__ == "__main__"\<close>), and then the lookup raises
  \<open>NameError\<close>.
\<close>

fun rep :: "hashlib \<Rightarrow> int option \<Rightarrow> int list \<Rightarrow> pyobj list \<Rightarrow> exn + pystr option" where
  "rep hl kglobal wprime [] = Inr None"
| "rep hl kglobal wprime (e # p) =
     (case unpack2 e of
        Inl ValueError \<Rightarrow> Inr None
      | Inl x \<Rightarrow> Inl x
      | Inr (ci, ji) \<Rightarrow>
          (case kglobal of
             None \<Rightarrow> Inl NameError
           | Some k \<Rightarrow>
               rbind (sub_pattern k wprime ji) (\<lambda>vi.
               rbind (unlock hl (KInts vi) ci 16 (PStr (S ''sha-256''))) (\<lambda>ri.
               if truthy ri then Inr ri else rep hl kglobal wprime p))))"

section \<open>The loop of rep, entry by entry\<close>

text \<open>
  What one round of the loop of rep does with the entry \<open>e\<close>: \<open>Some r\<close> when rep ends
  in this round (returning or raising \<open>r\<close>), \<open>None\<close> when the loop goes on to the next
  entry. Lemma \<open>rep_Cons\<close> shows that rep is this step, repeated.
\<close>

definition rep_body ::
  "hashlib \<Rightarrow> int option \<Rightarrow> int list \<Rightarrow> pyobj \<Rightarrow> (exn + pystr option) option" where
  "rep_body hl kglobal wprime e =
     (case unpack2 e of
        Inl x \<Rightarrow> Some (if x = ValueError then Inr None else Inl x)
      | Inr (ci, ji) \<Rightarrow>
          (case kglobal of
             None \<Rightarrow> Some (Inl NameError)
           | Some k \<Rightarrow>
               (case sub_pattern k wprime ji of
                  Inl x \<Rightarrow> Some (Inl x)
                | Inr vi \<Rightarrow>
                    (case unlock hl (KInts vi) ci 16 (PStr (S ''sha-256'')) of
                       Inl x \<Rightarrow> Some (Inl x)
                     | Inr ri \<Rightarrow> if truthy ri then Some (Inr ri) else None))))"



section \<open>The specification's locker count\<close>


section \<open>Notions used in the proofs\<close>

text \<open>
  ASCII text; the number that a list of hexadecimal digit values denotes; the two digit
  values of each byte.
\<close>

definition ascii :: "pystr \<Rightarrow> bool" where
  "ascii s \<longleftrightarrow> (\<forall>c\<in>set s. c < 128)"

definition hex_value :: "nat list \<Rightarrow> nat" where
  "hex_value vs = foldl (\<lambda>a d. 16 * a + d) 0 vs"

definition nibbles :: "pybytes \<Rightarrow> nat list" where
  "nibbles bs = concat (map (\<lambda>b. [b div 16, b mod 16]) bs)"

section \<open>The loop of gen, round by round\<close>

text \<open>
  One round of the loop of gen: the entry it appends, or the exception it raises. Lemma
  \<open>gen_loop_collect\<close> shows that the loop is this round, repeated.
\<close>

definition gen_slot ::
  "hashlib \<Rightarrow> draws \<Rightarrow> int list \<Rightarrow> int \<Rightarrow> pystr \<Rightarrow> nat \<Rightarrow> exn + pyobj" where
  "gen_slot hl rnd w k r i =
     (let ji = PList (map PInt (indices rnd i)) in
      rbind (sub_pattern k w ji) (\<lambda>vi.
      rbind (lock hl (nonces rnd i) (KInts vi) r 16 (PStr (S ''sha-256''))) (\<lambda>ci.
      Inr (PTuple [PTuple [PStr (fst ci), PStr (snd ci)], ji]))))"

text \<open>
  What the random sources promise for a reading of length \<open>n\<close> and a key length \<open>k\<close>:
  \<open>secrets.token_bytes(m)\<close> returns \<open>m\<close> bytes, and \<open>np.random.randint(low=0, high=n, size=k)\<close>
  returns \<open>k\<close> integers from 0 up to \<open>n - 1\<close>.
\<close>

definition draws_ok :: "draws \<Rightarrow> nat \<Rightarrow> int \<Rightarrow> bool" where
  "draws_ok rnd n k \<longleftrightarrow>
     length (token rnd) = nat (k div 8) \<and> (\<forall>b\<in>set (token rnd). b < 256)
     \<and> (\<forall>i. length (indices rnd i) = nat k
              \<and> (\<forall>x\<in>set (indices rnd i). 0 \<le> x \<and> x < int n)
              \<and> length (nonces rnd i) = 16 \<and> (\<forall>b\<in>set (nonces rnd i). b < 256))"

text \<open>
  What \<open>hashlib\<close> promises for the algorithm that gen and rep use (the default
  \<open>alg="sha-256"\<close> of lock and unlock): a digest for every message.
\<close>

definition digest_ok :: "hashlib \<Rightarrow> bool" where
  "digest_ok hl \<longleftrightarrow> (\<forall>m. hexdigest hl (hash_alg hl (PStr (S ''sha-256''))) m \<noteq> None)"

section \<open>A hashlib to compute with\<close>

text \<open>
  The theorems hold for every \<open>hashlib\<close>. Where a concrete one is needed to evaluate the
  functions, this one is used: \<open>algorithms_guaranteed\<close> as CPython 3 defines it, and as
  digest a checksum of the message and of the algorithm's name. The two SHAKE algorithms
  have no \<open>hexdigest()\<close> without a length.
\<close>

definition cpython_guaranteed :: "pystr set" where
  "cpython_guaranteed =
     S ` {''blake2b'', ''blake2s'', ''md5'', ''sha1'', ''sha224'', ''sha256'', ''sha384'',
          ''sha512'', ''sha3_224'', ''sha3_256'', ''sha3_384'', ''sha3_512'',
          ''shake_128'', ''shake_256''}"

definition sample_hashlib :: hashlib where
  "sample_hashlib =
     \<lparr>algorithms_guaranteed = cpython_guaranteed,
      hexdigest = (\<lambda>a m. if a = S ''shake_128'' \<or> a = S ''shake_256'' then None
                          else Some (sum_list m + length a))\<rparr>"

text \<open>
  Draws for a reading of length 2 and \<open>k = 1\<close> (no key byte, since \<open>1 // 8 = 0\<close>), and for
  a reading of length 8 and \<open>k = 8\<close> (one key byte, the letter A).
\<close>

definition sample_draws :: draws where
  "sample_draws =
     \<lparr>token = [], indices = (\<lambda>i. [int (i mod 2)]), nonces = (\<lambda>i. replicate 16 (i mod 256))\<rparr>"


section \<open>Properties\<close>

subsection \<open>The hash algorithm\<close>

lemma hash_alg_sha256: "hash_alg hl (PStr (S ''sha256'')) = S ''sha256''"
  by (simp add: hash_alg_def)

lemma hash_alg_fallback:
  "\<not> isinstance_str alg \<or> alg \<notin> PStr ` algorithms_guaranteed hl
   \<Longrightarrow> hash_alg hl alg = S ''sha256''"
  by (simp add: hash_alg_def)

text \<open>
  Claim C10. An \<open>alg\<close> that is not a \<open>str\<close>, or is not in \<open>hashlib.algorithms_guaranteed\<close>,
  makes lock and unlock hash with sha256: the name given to \<open>hashlib.new\<close> is \<open>sha256\<close>,
  and lock and unlock return (or raise) exactly what they do for \<open>alg = "sha256"\<close>. The
  default \<open>"sha-256"\<close> is such a value (see the witness).
\<close>

theorem unrecognised_alg_falls_back:
  assumes "\<not> isinstance_str alg \<or> alg \<notin> PStr ` algorithms_guaranteed hl"
  shows "hash_alg hl alg = S ''sha256''
         \<and> lock hl nb key val s alg = lock hl nb key val s (PStr (S ''sha256''))
         \<and> unlock hl key c s alg = unlock hl key c s (PStr (S ''sha256''))"
proof -
  have a: "hash_alg hl alg = S ''sha256''"
    using assms by (rule hash_alg_fallback)
  have h: "nonce_key_hash hl alg = nonce_key_hash hl (PStr (S ''sha256''))"
    by (rule ext) (simp add: nonce_key_hash_def a hash_alg_sha256)
  show ?thesis
    unfolding lock_def unlock_def h using a by simp
qed

theorem unrecognised_alg_falls_back_witness:
  "PStr (S ''sha-256'') \<notin> PStr ` algorithms_guaranteed sample_hashlib
   \<and> hash_alg sample_hashlib (PStr (S ''sha-256'')) = S ''sha256''
   \<and> lock sample_hashlib [171] (KStr (S ''k'')) (S ''v'') 16 (PStr (S ''sha-256''))
       = lock sample_hashlib [171] (KStr (S ''k'')) (S ''v'') 16 (PStr (S ''sha256''))
   \<and> unlock sample_hashlib (KStr (S ''k'')) (PTuple [PStr (S ''ab''), PStr (S ''0'')]) 16
         (PStr (S ''sha-256''))
       = unlock sample_hashlib (KStr (S ''k'')) (PTuple [PStr (S ''ab''), PStr (S ''0'')]) 16
           (PStr (S ''sha256''))"
proof -
  have h: "PStr (S ''sha-256'') \<notin> PStr ` algorithms_guaranteed sample_hashlib"
    by (simp add: sample_hashlib_def cpython_guaranteed_def S_def image_iff)
  from h have "\<not> isinstance_str (PStr (S ''sha-256''))
      \<or> PStr (S ''sha-256'') \<notin> PStr ` algorithms_guaranteed sample_hashlib"
    by simp
  from unrecognised_alg_falls_back [OF this] h show ?thesis by simp
qed

subsection \<open>set_l\<close>

text \<open>
  Claim C6. set_l returns 0 whenever \<open>n < 2\<close> or \<open>k < 1\<close> or \<open>t < 1\<close> or \<open>delta < 0\<close> or
  \<open>delta > 1\<close>; so it does at \<open>(1, 80, 31, 0.0036)\<close>, \<open>(1024, 0, 31, 0.0036)\<close>,
  \<open>(1024, 80, 31, -0.1)\<close> and \<open>(1024, 80, 31, 1.5)\<close>.
\<close>

theorem set_l_degenerate:
  "(n < 2 \<or> k < 1 \<or> t < 1 \<or> delta < 0 \<or> delta > 1 \<longrightarrow> set_l n k t delta = Inr 0)
   \<and> set_l 1 80 31 (36 / 10000) = Inr 0
   \<and> set_l 1024 0 31 (36 / 10000) = Inr 0
   \<and> set_l 1024 80 31 (- 1 / 10) = Inr 0
   \<and> set_l 1024 80 31 (15 / 10) = Inr 0"
  by (simp add: set_l_def)

theorem set_l_degenerate_witness:
  "(5::real) > 1 \<and> set_l 1024 80 31 5 = Inr 0"
  using set_l_degenerate [of 1024 80 31 5] by simp

subsection \<open>Evaluation at concrete inputs\<close>

lemma zeros_16: "zeros 16 = [48, 48, 48, 48, 48, 48, 48, 48, 48, 48, 48, 48, 48, 48, 48, 48]"
  by (simp add: zeros_def eval_nat_numeral)

lemmas py_eval =
  S_def bytes_hex_def hexdigit_def hexval_def py_hex_def nat_hex.simps py_int16_def
  strip_def is_space_def drop_sign_def drop_prefix_def hex_literal_def py_int16_obj_def
  utf8_char_def decode.simps cont_def zeros_16 tail_slice_def rstrip0_def py_str_def
  py_dec_def nat_dec.simps add_str_def rbind_def nonce_key_hash_def hash_alg_def
  isinstance_str_def sample_hashlib_def cpython_guaranteed_def

lemmas rep_eval = sub_pattern_def seq_item_def reading_item_def truthy_def

subsection \<open>unlock on a malformed locker output\<close>

lemma unpack2_wrong_length:
  "length xs \<noteq> 2 \<Longrightarrow> unpack2 (PTuple xs) = Inl ValueError"
  "length xs \<noteq> 2 \<Longrightarrow> unpack2 (PList xs) = Inl ValueError"
  "length s \<noteq> 2 \<Longrightarrow> unpack2 (PStr s) = Inl ValueError"
  by (auto split: list.splits)

text \<open>
  Claim C7 says that unlock returns a failure value and never raises, for every \<open>c\<close> that
  is not a pair of a nonce and a hexadecimal cipher. It fails: on the pair
  \<open>("ab", "zz")\<close>, whose second item is no hexadecimal text, line 96
  (\<open>int(xor_val, 16)\<close>, outside both \<open>try\<close> blocks) raises \<open>ValueError\<close>.
\<close>

theorem unlock_raises_on_bad_cipher:
  "unlock sample_hashlib (KStr (S ''k'')) (PTuple [PStr (S ''ab''), PStr (S ''zz'')]) 16
     (PStr (S ''sha-256'')) = Inl ValueError"
  by (simp add: unlock_def py_eval)

text \<open>
  Claim C7, amended: when \<open>c\<close> is a sequence (tuple, list or \<open>str\<close>) whose length is not 2,
  unlock returns \<open>None\<close> and raises nothing, for every key, \<open>s\<close> and \<open>alg\<close>.
\<close>

theorem unlock_wrong_arity:
  assumes "length xs \<noteq> 2" and "length cs \<noteq> 2"
  shows "unlock hl key (PTuple xs) s alg = Inr None
         \<and> unlock hl key (PList xs) s alg = Inr None
         \<and> unlock hl key (PStr cs) s alg = Inr None"
  using assms by (simp add: unlock_def unpack2_wrong_length del: unpack2.simps)

text \<open>The witness is the call \<open>unlock("", "", s=32, alg="blake2b")\<close> of digitallocker's main.\<close>

theorem unlock_wrong_arity_witness:
  "length ([] :: pyobj list) \<noteq> 2 \<and> length ([] :: pystr) \<noteq> 2
   \<and> unlock sample_hashlib (KStr []) (PStr []) 32 (PStr (S ''blake2b'')) = Inr None"
  using unlock_wrong_arity [of "[]" "[]" sample_hashlib "KStr []" 32 "PStr (S ''blake2b'')"]
  by simp

subsection \<open>rep: the loop\<close>

lemma rep_Cons:
  "rep hl kglobal wprime (e # p) =
     (case rep_body hl kglobal wprime e of Some r \<Rightarrow> r | None \<Rightarrow> rep hl kglobal wprime p)"
proof (cases "unpack2 e")
  case (Inl x)
  then show ?thesis by (cases x) (simp_all add: rep_body_def)
next
  case (Inr cj)
  obtain ci ji where cj: "cj = (ci, ji)" by (cases cj)
  show ?thesis
  proof (cases kglobal)
    case None
    with Inr cj show ?thesis by (simp add: rep_body_def)
  next
    case (Some k)
    show ?thesis
    proof (cases "sub_pattern k wprime ji")
      case (Inl x)
      with Inr cj Some show ?thesis by (simp add: rep_body_def rbind_def)
    next
      case vi: (Inr vi)
      show ?thesis
      proof (cases "unlock hl (KInts vi) ci 16 (PStr (S ''sha-256''))")
        case (Inl x)
        with Inr cj Some vi show ?thesis by (simp add: rep_body_def rbind_def)
      next
        case ri: (Inr ri)
        with Inr cj Some vi show ?thesis by (simp add: rep_body_def rbind_def)
      qed
    qed
  qed
qed

lemma rep_body_wrong_length:
  "length xs \<noteq> 2 \<Longrightarrow> rep_body hl kglobal wprime (PTuple xs) = Some (Inr None)"
  "length xs \<noteq> 2 \<Longrightarrow> rep_body hl kglobal wprime (PList xs) = Some (Inr None)"
  by (simp_all add: rep_body_def unpack2_wrong_length del: unpack2.simps)

text \<open>
  Claim C3 says that a malformed entry is skipped and rep goes on with the next entry.
  It fails: with the empty tuple before it, the entry that unlocks alone is never tried,
  and rep returns \<open>None\<close> (lines 105-107: \<open>except ValueError\<close>, a message,
  \<open>return None\<close>). The reading is \<open>[0, 1]\<close>, the global \<open>k\<close> is 1, and the second entry
  locks the key text \<open>b'A'\<close> under the sub-pattern \<open>[0]\<close>.
\<close>

theorem rep_stops_at_malformed_entry:
  "rep sample_hashlib (Some 1) [0, 1]
     [PTuple [],
      PTuple [PTuple [PStr (S ''ab''), PStr (S ''6227412730303030303030303030303030303181'')],
              PList [PInt 0]]] = Inr None
   \<and> rep sample_hashlib (Some 1) [0, 1]
     [PTuple [PTuple [PStr (S ''ab''), PStr (S ''6227412730303030303030303030303030303181'')],
              PList [PInt 0]]] = Inr (Some [98, 39, 65, 39])"
  by (simp add: unlock_def rep_eval py_eval)

text \<open>
  Claim C3, amended: an entry that is a tuple or a list of a length other than 2 ends
  rep, which returns \<open>None\<close> at that entry whatever the entries after it are, when no
  entry before it made rep return a key or raise.
\<close>

theorem rep_malformed_entry:
  assumes "rep hl kglobal wprime pre = Inr None" and "length xs \<noteq> 2"
  shows "rep hl kglobal wprime (pre @ PTuple xs # p) = Inr None
         \<and> rep hl kglobal wprime (pre @ PList xs # p) = Inr None"
  using assms(1)
proof (induction pre)
  case Nil
  show ?case using assms(2) by (simp add: rep_Cons rep_body_wrong_length del: rep.simps)
next
  case (Cons e pre)
  show ?case
  proof (cases "rep_body hl kglobal wprime e")
    case None
    with Cons show ?thesis by (simp add: rep_Cons del: rep.simps)
  next
    case (Some r)
    with Cons.prems show ?thesis by (simp add: rep_Cons del: rep.simps)
  qed
qed

theorem rep_malformed_entry_witness:
  "rep sample_hashlib (Some 1) [0, 1]
     [PTuple [PTuple [PStr (S ''ab''), PStr (S ''0'')], PList [PInt 0]]] = Inr None
   \<and> length [PInt 7] \<noteq> 2
   \<and> rep sample_hashlib (Some 1) [0, 1]
       ([PTuple [PTuple [PStr (S ''ab''), PStr (S ''0'')], PList [PInt 0]]]
        @ PTuple [PInt 7]
        # [PTuple [PTuple [PStr (S ''ab''),
                           PStr (S ''6227412730303030303030303030303030303181'')],
                   PList [PInt 0]]]) = Inr None"
proof -
  have a: "rep sample_hashlib (Some 1) [0, 1]
     [PTuple [PTuple [PStr (S ''ab''), PStr (S ''0'')], PList [PInt 0]]] = Inr None"
    by (simp add: unlock_def rep_eval py_eval)
  have b: "length [PInt 7] \<noteq> 2" by simp
  from rep_malformed_entry [OF a b] a b show ?thesis by blast
qed







subsection \<open>lock, then unlock\<close>

text \<open>
  Claim C2 (round trip) at the failing input \<open>key = "k"\<close>, \<open>value = "10"\<close>, \<open>s = 16\<close>: lock
  appends sixteen characters 0 to the value, and unlock removes every trailing 0 with
  \<open>rstrip("0")\<close>, the one that ends the value too. unlock returns \<open>"1"\<close>. Lemmas
  \<open>lock_unlock_round_trip\<close> and \<open>lock_unlock_loses_trailing_zero\<close> show, for every
  hashlib, that the round trip holds for the ASCII values that do not end in 0 and fails
  for those that do.
\<close>

theorem lock_unlock_strips_zeros_of_value:
  "lock sample_hashlib [171] (KStr (S ''k'')) (S ''10'') 16 (PStr (S ''sha256''))
     = Inr (S ''ab'', S ''313030303030303030303030303030303104'')
   \<and> unlock sample_hashlib (KStr (S ''k''))
       (PTuple [PStr (S ''ab''), PStr (S ''313030303030303030303030303030303104'')]) 16
       (PStr (S ''sha256''))
     = Inr (Some (S ''1''))"
  by (simp add: lock_def unlock_def py_eval)

text \<open>
  With \<open>s = 0\<close> the test \<open>"0" * s == val[-s:]\<close> compares the empty string with the whole
  of \<open>val\<close> (\<open>val[-0:]\<close> is \<open>val[0:]\<close>), and unlock returns \<open>None\<close>.
\<close>

lemma lock_unlock_s0:
  "lock sample_hashlib [171] (KStr (S ''k'')) (S ''hello'') 0 (PStr (S ''sha256''))
     = Inr (S ''ab'', S ''68656c6d5b'')
   \<and> unlock sample_hashlib (KStr (S ''k''))
       (PTuple [PStr (S ''ab''), PStr (S ''68656c6d5b'')]) 0
       (PStr (S ''sha256''))
     = Inr None"
  by (simp add: lock_def unlock_def py_eval zeros_def)

subsection \<open>set_l and the formula\<close>

lemma ln2_ge_half: "1 / 2 \<le> ln (2::real)"
proof -
  have "exp (1 / 2 :: real) ^ 2 = exp 1"
    by (simp add: power2_eq_square flip: exp_add)
  also have "\<dots> \<le> 2 ^ 2" using exp_le by simp
  finally have "exp (1 / 2 :: real) \<le> 2"
    by (rule power2_le_imp_le) simp
  then show ?thesis by (subst ln_ge_iff) simp_all
qed

lemma exponent_2_1_1: "\<lceil>(1 * real_of_int 1) / (real_of_int 2 * ln (real_of_int 2))\<rceil> = 1"
proof -
  have a: "0 < 1 / (2 * ln (2::real))" by simp
  have "1 \<le> 2 * ln (2::real)" using ln2_ge_half by simp
  then have b: "1 / (2 * ln (2::real)) \<le> 1" by simp
  from a b have "\<lceil>1 / (2 * ln (2::real))\<rceil> = 1" by (simp add: ceiling_eq_iff)
  then show ?thesis by simp
qed


lemma set_l_2_1_1_1: "set_l 2 1 1 1 = Inr 4"
proof -
  have "log 2 (4::real) = 2"
    using log_pow_cancel [of "2::real" 2] by simp
  then show ?thesis
    using exponent_2_1_1 by (simp add: set_l_def py_int_of_float_def)
qed






subsection \<open>Hexadecimal text and numbers\<close>

lemma ascii_simps [simp]:
  "ascii []" "ascii (c # s) \<longleftrightarrow> c < 128 \<and> ascii s" "ascii (s @ t) \<longleftrightarrow> ascii s \<and> ascii t"
  by (auto simp: ascii_def)

lemma encode_ascii: "ascii s \<Longrightarrow> encode s = Inr s"
  by (induction s) (simp_all add: utf8_char_def)

lemma decode_ascii: "ascii s \<Longrightarrow> decode s = Some s"
  by (induction s) (simp_all add: decode.simps)

lemma hexval_hexdigit: "d < 16 \<Longrightarrow> hexval (hexdigit d) = Some d"
  by (simp add: hexval_def hexdigit_def)

lemma hexdigit_plain:
  "d < 16 \<Longrightarrow> hexdigit d < 128 \<and> hexdigit d \<noteq> 95 \<and> \<not> is_space (hexdigit d)
     \<and> hexdigit d \<noteq> 43 \<and> hexdigit d \<noteq> 45 \<and> hexdigit d \<noteq> 120 \<and> hexdigit d \<noteq> 88"
  by (simp add: hexdigit_def is_space_def)

lemma hex_digits_plain:
  "\<forall>v\<in>set vs. v < 16 \<Longrightarrow>
   hex_digits acc (map hexdigit vs) = Some (foldl (\<lambda>a d. 16 * a + d) acc vs)"
proof (induction vs arbitrary: acc)
  case Nil
  show ?case by simp
next
  case (Cons v vs)
  show ?case
  proof (cases vs)
    case Nil
    with Cons.prems show ?thesis by (simp add: hexval_hexdigit)
  next
    case (Cons u us)
    with Cons.prems Cons.IH [of "16 * acc + v"] show ?thesis
      by (simp add: hexval_hexdigit hexdigit_plain)
  qed
qed

lemma hex_literal_plain:
  assumes "vs \<noteq> []" and "\<forall>v\<in>set vs. v < 16"
  shows "hex_literal (map hexdigit vs) = Some (hex_value vs)"
proof -
  from assms(1) obtain v us where vs: "vs = v # us" by (cases vs) auto
  with assms(2) show ?thesis
    by (simp add: hex_literal_def hexval_hexdigit hex_digits_plain hex_value_def)
qed

lemma strip_plain:
  assumes "s \<noteq> []" and "\<not> is_space (hd s)" and "\<not> is_space (last s)"
  shows "strip s = s"
proof -
  from assms obtain c r where s: "s = c # r" by (cases s) auto
  with assms have a: "dropWhile is_space s = s" by simp
  from assms have "rev s \<noteq> []" "\<not> is_space (hd (rev s))" by (simp_all add: hd_rev)
  then have "dropWhile is_space (rev s) = rev s" by (cases "rev s") auto
  with a show ?thesis by (simp add: strip_def)
qed

lemma py_int16_plain:
  assumes "vs \<noteq> []" and "\<forall>v\<in>set vs. v < 16"
  shows "py_int16 (map hexdigit vs) = Inr (int (hex_value vs))"
proof -
  let ?s = "map hexdigit vs"
  from assms(1) obtain v us where vs: "vs = v # us" by (cases vs) auto
  have h: "hd vs < 16" "last vs < 16" using assms by simp_all
  have "strip ?s = ?s"
    using assms(1) h by (intro strip_plain) (simp_all add: hd_map last_map hexdigit_plain)
  moreover have "drop_sign ?s = ?s"
    using vs assms(2) by (simp add: drop_sign_def hexdigit_plain)
  moreover have "drop_prefix ?s = ?s"
    using vs assms(2) by (cases us) (simp_all add: drop_prefix_def hexdigit_plain)
  moreover have "(case ?s of [] \<Rightarrow> False | c # _ \<Rightarrow> c = 45) = False"
    using vs assms(2) by (simp add: hexdigit_plain)
  ultimately show ?thesis
    using hex_literal_plain [OF assms] by (simp add: py_int16_def)
qed

lemma bytes_hex_nibbles: "bytes_hex bs = map hexdigit (nibbles bs)"
  by (induction bs) (simp_all add: bytes_hex_def nibbles_def)

lemma nibbles_lt: "\<forall>b\<in>set bs. b < 256 \<Longrightarrow> \<forall>v\<in>set (nibbles bs). v < 16"
  by (induction bs) (auto simp: nibbles_def)

lemma nibbles_Nil [simp]: "nibbles bs = [] \<longleftrightarrow> bs = []"
  by (cases bs) (simp_all add: nibbles_def)

lemma py_int16_bytes_hex:
  "bs \<noteq> [] \<Longrightarrow> \<forall>b\<in>set bs. b < 256 \<Longrightarrow> py_int16 (bytes_hex bs) = Inr (int (hex_value (nibbles bs)))"
  by (simp add: bytes_hex_nibbles py_int16_plain nibbles_lt)


lemma hex_value_snoc: "hex_value (us @ [v]) = 16 * hex_value us + v"
  by (simp add: hex_value_def)

lemma foldl_hex_ge: "(a::nat) \<le> foldl (\<lambda>a d. 16 * a + d) a vs"
proof (induction vs arbitrary: a)
  case Nil
  show ?case by simp
next
  case (Cons v vs)
  have "a \<le> 16 * a + v" by simp
  also have "\<dots> \<le> foldl (\<lambda>a d. 16 * a + d) (16 * a + v) vs" by (rule Cons.IH)
  finally show ?case by simp
qed

lemma hex_value_pos: "vs \<noteq> [] \<Longrightarrow> hd vs \<noteq> 0 \<Longrightarrow> 0 < hex_value vs"
proof (cases vs)
  case Nil
  then show "vs \<noteq> [] \<Longrightarrow> hd vs \<noteq> 0 \<Longrightarrow> 0 < hex_value vs" by simp
next
  case (Cons v us)
  assume "hd vs \<noteq> 0"
  with Cons have "0 < v" by simp
  also have "v \<le> foldl (\<lambda>a d. 16 * a + d) v us" by (rule foldl_hex_ge)
  finally show "0 < hex_value vs" using Cons by (simp add: hex_value_def)
qed

text \<open>The digits of a number are the digits it was read from, when these have no leading zero.\<close>

lemma nat_hex_hex_value:
  "vs \<noteq> [] \<Longrightarrow> hd vs \<noteq> 0 \<Longrightarrow> \<forall>v\<in>set vs. v < 16 \<Longrightarrow> nat_hex (hex_value vs) = map hexdigit vs"
proof (induction vs rule: rev_induct)
  case Nil
  then show ?case by simp
next
  case (snoc v us)
  show ?case
  proof (cases "us = []")
    case True
    with snoc.prems show ?thesis by (simp add: hex_value_def nat_hex.simps)
  next
    case False
    with snoc.prems have hd: "hd us \<noteq> 0" and lt: "\<forall>u\<in>set us. u < 16" and v: "v < 16"
      by simp_all
    from False hd have "0 < hex_value us" by (rule hex_value_pos)
    then have big: "\<not> 16 * hex_value us + v < 16" by simp
    have "nat_hex (hex_value (us @ [v])) =
            nat_hex ((16 * hex_value us + v) div 16) @ [hexdigit ((16 * hex_value us + v) mod 16)]"
      using big by (subst nat_hex.simps) (simp add: hex_value_snoc)
    also have "(16 * hex_value us + v) div 16 = hex_value us" using v by simp
    also have "(16 * hex_value us + v) mod 16 = v" using v by simp
    also have "nat_hex (hex_value us) = map hexdigit us" using False hd lt by (rule snoc.IH)
    finally show ?thesis by simp
  qed
qed

text \<open>Every number is read back from its digits.\<close>

lemma nat_hex_digits:
  "\<exists>vs. nat_hex n = map hexdigit vs \<and> vs \<noteq> [] \<and> (\<forall>v\<in>set vs. v < 16) \<and> hex_value vs = n"
proof (induction n rule: nat_hex.induct)
  case (1 n)
  show ?case
  proof (cases "n < 16")
    case True
    then have "nat_hex n = map hexdigit [n] \<and> [n] \<noteq> [] \<and> (\<forall>v\<in>set [n]. v < 16) \<and> hex_value [n] = n"
      by (simp add: nat_hex.simps hex_value_def)
    then show ?thesis by blast
  next
    case False
    with 1 obtain us where us: "nat_hex (n div 16) = map hexdigit us" "us \<noteq> []"
        "\<forall>v\<in>set us. v < 16" "hex_value us = n div 16"
      by blast
    have "nat_hex n = map hexdigit (us @ [n mod 16])"
      using False us(1) by (subst nat_hex.simps) simp
    moreover have "hex_value (us @ [n mod 16]) = n"
      using us(4) by (simp add: hex_value_snoc)
    moreover have "\<forall>v\<in>set (us @ [n mod 16]). v < 16" using us(3) by simp
    ultimately show ?thesis by blast
  qed
qed

lemma py_int16_nat_hex: "py_int16 (nat_hex n) = Inr (int n)"
proof -
  obtain vs where "nat_hex n = map hexdigit vs" "vs \<noteq> []" "\<forall>v\<in>set vs. v < 16" "hex_value vs = n"
    using nat_hex_digits by blast
  then show ?thesis using py_int16_plain [of vs] by simp
qed

lemma py_fromhex_nibbles:
  "\<forall>b\<in>set bs. b < 256 \<Longrightarrow> py_fromhex (map hexdigit (nibbles bs)) = Some bs"
proof (induction bs)
  case Nil
  show ?case by (simp add: nibbles_def)
next
  case (Cons b bs)
  from Cons.prems have "b < 256" by simp
  then have "b div 16 < 16" and "b mod 16 < 16" and "16 * (b div 16) + b mod 16 = b"
    by arith+
  moreover have "py_fromhex (map hexdigit (nibbles bs)) = Some bs"
    using Cons by simp
  ultimately show ?case
    by (simp add: nibbles_def hexval_hexdigit)
qed

lemma py_hex_nonneg: "0 \<le> i \<Longrightarrow> drop 2 (py_hex i) = nat_hex (nat i)"
  by (simp add: py_hex_def S_def)

lemma xor_cancel_int: "(h::int) XOR (h XOR v) = v"
  by (simp flip: xor.assoc)

lemma xor_nonneg_int: "0 \<le> int h XOR int v"
  by simp


lemma ascii_zeros: "ascii (zeros s)"
  by (simp add: zeros_def ascii_def)

lemma ascii_bytes: "ascii s \<Longrightarrow> \<forall>b\<in>set s. b < 256"
  by (auto simp: ascii_def)

lemma hd_nibbles: "bs \<noteq> [] \<Longrightarrow> hd (nibbles bs) = hd bs div 16"
  by (cases bs) (simp_all add: nibbles_def)

text \<open>What lock returns.\<close>

lemma lock_returns:
  assumes enc: "encode (bytes_hex nb @ py_str key) = Inr m"
    and dig: "hexdigest hl (hash_alg hl alg) m = Some h"
    and val: "ascii val" and ne: "val @ zeros s \<noteq> []"
  shows "lock hl nb key val s alg =
           Inr (bytes_hex nb,
                nat_hex (nat (int h XOR int (hex_value (nibbles (val @ zeros s))))))"
proof -
  let ?v = "val @ zeros s"
  have a: "ascii ?v" using val by (simp add: ascii_zeros)
  have e: "encode ?v = Inr ?v" using a by (rule encode_ascii)
  have i: "py_int16 (bytes_hex ?v) = Inr (int (hex_value (nibbles ?v)))"
    using ne ascii_bytes [OF a] by (rule py_int16_bytes_hex)
  have n: "0 \<le> int h XOR int (hex_value (nibbles ?v))" by simp
  show ?thesis
    unfolding lock_def nonce_key_hash_def rbind_def Let_def
    by (simp add: enc dig e i py_hex_nonneg [OF n])
qed

text \<open>What unlock returns on it, with the same key.\<close>

lemma unlock_of_lock:
  assumes enc: "encode (bytes_hex nb @ py_str key) = Inr m"
    and dig: "hexdigest hl (hash_alg hl alg) m = Some h"
    and val: "ascii val" and ne: "val @ zeros s \<noteq> []" and hd: "16 \<le> hd (val @ zeros s)"
  shows "unlock hl key
           (PTuple [PStr (bytes_hex nb),
                    PStr (nat_hex (nat (int h XOR int (hex_value (nibbles (val @ zeros s))))))])
           s alg =
         Inr (if zeros s = tail_slice (val @ zeros s) s then Some (rstrip0 (val @ zeros s))
              else None)"
proof -
  let ?v = "val @ zeros s"
  let ?V = "hex_value (nibbles ?v)"
  have a: "ascii ?v" using val by (simp add: ascii_zeros)
  have b: "\<forall>b\<in>set ?v. b < 256" using a by (rule ascii_bytes)
  have n: "0 \<le> int h XOR int ?V" by simp
  have x: "py_int16 (nat_hex (nat (int h XOR int ?V))) = Inr (int h XOR int ?V)"
    using n by (simp add: py_int16_nat_hex)
  have "hd (nibbles ?v) \<noteq> 0" using ne hd by (simp add: hd_nibbles del: hd_append2)
  then have d: "nat_hex ?V = map hexdigit (nibbles ?v)"
    using ne nibbles_lt [OF b] by (intro nat_hex_hex_value) simp_all
  have f: "py_fromhex (drop 2 (py_hex (int ?V))) = Some ?v"
    using py_fromhex_nibbles [OF b] by (simp add: py_hex_nonneg d)
  have g: "decode ?v = Some ?v" using a by (rule decode_ascii)
  show ?thesis
    unfolding unlock_def nonce_key_hash_def rbind_def Let_def
    by (simp add: add_str_def py_int16_obj_def enc dig x xor_cancel_int f g)
qed

lemma tail_slice_zeros: "0 < s \<Longrightarrow> tail_slice (val @ zeros s) s = zeros s"
  by (simp add: tail_slice_def zeros_def)

lemma dropWhile_replicate_48:
  "dropWhile (\<lambda>c. c = 48) (replicate n (48::nat) @ ys) = dropWhile (\<lambda>c. c = 48) ys"
  by (induction n) simp_all

lemma rstrip0_zeros: "rstrip0 (val @ zeros s) = rstrip0 val"
  by (simp add: rstrip0_def zeros_def dropWhile_replicate_48)

lemma rstrip0_id: "val = [] \<or> last val \<noteq> 48 \<Longrightarrow> rstrip0 val = val"
proof (cases "val = []")
  case True
  then show ?thesis by (simp add: rstrip0_def)
next
  case False
  assume "val = [] \<or> last val \<noteq> 48"
  with False have "hd (rev val) \<noteq> 48" by (simp add: hd_rev)
  with False have "dropWhile (\<lambda>c. c = 48) (rev val) = rev val"
    by (cases "rev val") simp_all
  then show ?thesis by (simp add: rstrip0_def)
qed

subsection \<open>gen, and rep on what gen returns\<close>

lemma gen_loop_collect: "gen_loop hl rnd w k r is = collect (gen_slot hl rnd w k r) is"
proof (induction "is")
  case Nil
  show ?case by simp
next
  case (Cons i "is")
  show ?case
  proof (cases "sub_pattern k w (PList (map PInt (indices rnd i)))")
    case (Inl x)
    then show ?thesis by (simp add: gen_slot_def rbind_def)
  next
    case vi: (Inr vi)
    show ?thesis
    proof (cases "lock hl (nonces rnd i) (KInts vi) r 16 (PStr (S ''sha-256''))")
      case (Inl x)
      with vi show ?thesis by (simp add: gen_slot_def rbind_def)
    next
      case (Inr ci)
      with vi Cons show ?thesis by (simp add: gen_slot_def rbind_def)
    qed
  qed
qed

lemma collect_Inr:
  "(\<And>j. j \<in> set js \<Longrightarrow> f j = Inr (g j)) \<Longrightarrow> collect f js = Inr (map g js)"
  by (induction js) simp_all

lemma collect_length: "collect f js = Inr xs \<Longrightarrow> length xs = length js"
proof (induction js arbitrary: xs)
  case Nil
  then show ?case by simp
next
  case (Cons j js)
  then show ?case by (auto split: sum.splits)
qed

lemma collect_nth:
  "collect f js = Inr xs \<Longrightarrow> i < length js \<Longrightarrow> f (js ! i) = Inr (xs ! i)"
proof (induction js arbitrary: xs i)
  case Nil
  then show ?case by simp
next
  case (Cons j js)
  then show ?case by (cases i) (auto split: sum.splits)
qed

lemma sub_pattern_contract:
  assumes "nat k \<le> length ji" and "\<forall>x\<in>set ji. 0 \<le> x \<and> x < int (length w)"
  shows "sub_pattern k w (PList (map PInt ji)) = Inr (map (\<lambda>j. w ! nat (ji ! j)) [0..<nat k])"
  unfolding sub_pattern_def
proof (rule collect_Inr)
  fix j assume "j \<in> set [0..<nat k]"
  with assms(1) have j: "j < length ji" by simp
  then have "ji ! j \<in> set ji" by simp
  with assms(2) have "0 \<le> ji ! j" "ji ! j < int (length w)" by auto
  with j show "rbind (seq_item (PList (map PInt ji)) j) (reading_item w) = Inr (w ! nat (ji ! j))"
    by (simp add: rbind_def seq_item_def reading_item_def)
qed


lemma ascii_nat_dec: "ascii (nat_dec n)"
proof (induction n rule: nat_dec.induct)
  case (1 n)
  show ?case
  proof (cases "n < 10")
    case True
    then show ?thesis by (subst nat_dec.simps) simp
  next
    case False
    have "n mod 10 < 10" by simp
    then have "48 + n mod 10 < 128" by linarith
    with False 1 show ?thesis by (subst nat_dec.simps) simp
  qed
qed

lemma ascii_py_dec: "ascii (py_dec i)"
  by (simp add: py_dec_def ascii_nat_dec)

lemma ascii_join: "ascii sep \<Longrightarrow> \<forall>x\<in>set xs. ascii x \<Longrightarrow> ascii (join sep xs)"
  by (induction sep xs rule: join.induct) simp_all

lemma ascii_S_literals: "ascii (S ''['')" "ascii (S '', '')" "ascii (S '']'')"
  by (simp_all add: S_def)

lemma ascii_py_str_ints: "ascii (py_str (KInts xs))"
  by (simp add: py_str_def ascii_S_literals ascii_join ascii_py_dec)

lemma ascii_bytes_hex: "\<forall>b\<in>set bs. b < 256 \<Longrightarrow> ascii (bytes_hex bs)"
  using nibbles_lt [of bs] by (auto simp: bytes_hex_nibbles ascii_def hexdigit_plain)

lemma repr_byte_ascii: "c < 256 \<Longrightarrow> q < 128 \<Longrightarrow> ascii (repr_byte q c)"
proof -
  assume c: "c < 256" and q: "q < 128"
  from c have "c div 16 < 16" and "c mod 16 < 16" by arith+
  then have "hexdigit (c div 16) < 128" and "hexdigit (c mod 16) < 128"
    by (simp_all add: hexdigit_plain)
  with q show ?thesis by (auto simp: repr_byte_def)
qed

lemma repr_byte_length: "1 \<le> length (repr_byte q c) \<and> length (repr_byte q c) \<le> 4"
  by (simp add: repr_byte_def)

lemma concat_repr_length:
  "length bs \<le> length (concat (map (repr_byte q) bs))
   \<and> length (concat (map (repr_byte q) bs)) \<le> 4 * length bs"
proof (induction bs)
  case Nil
  show ?case by simp
next
  case (Cons b bs)
  with repr_byte_length [of q b] show ?case by simp
qed

lemma concat_repr_ascii:
  "\<forall>b\<in>set bs. b < 256 \<Longrightarrow> q < 128 \<Longrightarrow> ascii (concat (map (repr_byte q) bs))"
  by (induction bs) (simp_all add: repr_byte_ascii)

text \<open>The text of a byte string: what the key of gen looks like.\<close>

lemma bytes_repr_shape:
  "bytes_repr bs \<noteq> [] \<and> hd (bytes_repr bs) = 98
   \<and> (last (bytes_repr bs) = 39 \<or> last (bytes_repr bs) = 34)
   \<and> length bs + 3 \<le> length (bytes_repr bs) \<and> length (bytes_repr bs) \<le> 4 * length bs + 3"
proof -
  let ?q = "if 39 \<in> set bs \<and> 34 \<notin> set bs then 34 else 39 :: nat"
  from concat_repr_length [of bs ?q] show ?thesis
    by (simp add: bytes_repr_def Let_def)
qed

lemma ascii_bytes_repr: "\<forall>b\<in>set bs. b < 256 \<Longrightarrow> ascii (bytes_repr bs)"
proof -
  assume b: "\<forall>b\<in>set bs. b < 256"
  let ?q = "if 39 \<in> set bs \<and> 34 \<notin> set bs then 34 else 39 :: nat"
  have "?q < 128" by simp
  with b have "ascii (concat (map (repr_byte ?q) bs))" by (rule concat_repr_ascii)
  then show ?thesis by (simp add: bytes_repr_def Let_def)
qed


lemma digest_okD: "digest_ok hl \<Longrightarrow> \<exists>h. hexdigest hl (hash_alg hl (PStr (S ''sha-256''))) m = Some h"
  by (auto simp: digest_ok_def)

text \<open>One locker of gen: lock returns, and unlock with the same sub-pattern gives the key.\<close>

lemma slot_lock_unlock:
  assumes dig: "digest_ok hl" and nb: "\<forall>b\<in>set nb. b < 256" and tk: "\<forall>b\<in>set tk. b < 256"
  shows "\<exists>c. lock hl nb (KInts vi) (bytes_repr tk) 16 (PStr (S ''sha-256'')) = Inr c
           \<and> unlock hl (KInts vi) (PTuple [PStr (fst c), PStr (snd c)]) 16 (PStr (S ''sha-256''))
               = Inr (Some (bytes_repr tk))"
proof -
  let ?r = "bytes_repr tk"
  let ?t = "bytes_hex nb @ py_str (KInts vi)"
  have "ascii ?t" using nb by (simp add: ascii_bytes_hex ascii_py_str_ints)
  then have enc: "encode ?t = Inr ?t" by (rule encode_ascii)
  obtain h where h: "hexdigest hl (hash_alg hl (PStr (S ''sha-256''))) ?t = Some h"
    using digest_okD [OF dig] by blast
  have r: "ascii ?r" using tk by (rule ascii_bytes_repr)
  have sh: "?r \<noteq> []" "hd ?r = 98" "last ?r = 39 \<or> last ?r = 34"
    using bytes_repr_shape [of tk] by simp_all
  have ne: "?r @ zeros 16 \<noteq> []" using sh(1) by simp
  have hd: "16 \<le> hd (?r @ zeros 16)" using sh(1,2) by simp
  have "rstrip0 ?r = ?r" using sh(3) by (intro rstrip0_id) auto
  then have res: "(if zeros 16 = tail_slice (?r @ zeros 16) 16 then Some (rstrip0 (?r @ zeros 16))
                   else None) = Some ?r"
    by (simp add: tail_slice_zeros rstrip0_zeros)
  show ?thesis
    using lock_returns [OF enc h r ne] unlock_of_lock [OF enc h r ne hd] res by simp
qed

lemma gen_slot_returns:
  assumes dig: "digest_ok hl" and tk: "\<forall>b\<in>set tk. b < 256"
    and len: "length (indices rnd i) = nat k"
    and rng: "\<forall>x\<in>set (indices rnd i). 0 \<le> x \<and> x < int (length w)"
    and nb: "\<forall>b\<in>set (nonces rnd i). b < 256"
  shows "\<exists>nonce cipher.
           gen_slot hl rnd w k (bytes_repr tk) i
             = Inr (PTuple [PTuple [PStr nonce, PStr cipher], PList (map PInt (indices rnd i))])
           \<and> rep_body hl (Some k) w
               (PTuple [PTuple [PStr nonce, PStr cipher], PList (map PInt (indices rnd i))])
             = Some (Inr (Some (bytes_repr tk)))"
proof -
  let ?ji = "indices rnd i"
  let ?vi = "map (\<lambda>j. w ! nat (?ji ! j)) [0..<nat k]"
  have sp: "sub_pattern k w (PList (map PInt ?ji)) = Inr ?vi"
    using len rng by (intro sub_pattern_contract) simp_all
  obtain c where c: "lock hl (nonces rnd i) (KInts ?vi) (bytes_repr tk) 16 (PStr (S ''sha-256'')) = Inr c"
    "unlock hl (KInts ?vi) (PTuple [PStr (fst c), PStr (snd c)]) 16 (PStr (S ''sha-256''))
       = Inr (Some (bytes_repr tk))"
    using slot_lock_unlock [OF dig nb tk] by blast
  have t: "truthy (Some (bytes_repr tk))"
    using bytes_repr_shape [of tk] by (simp add: truthy_def)
  have a: "gen_slot hl rnd w k (bytes_repr tk) i
             = Inr (PTuple [PTuple [PStr (fst c), PStr (snd c)], PList (map PInt ?ji)])"
    by (simp add: gen_slot_def rbind_def sp c(1))
  have b: "rep_body hl (Some k) w
             (PTuple [PTuple [PStr (fst c), PStr (snd c)], PList (map PInt ?ji)])
           = Some (Inr (Some (bytes_repr tk)))"
    by (simp add: rep_body_def sp c(2) t)
  from a b show ?thesis by blast
qed

lemma rep_body_unbound:
  "rep_body hl None w (PTuple [c, ji]) = Some (Inl NameError)"
  by (simp add: rep_body_def)


text \<open>
  gen returns under the contracts of the random sources and of the digest: the key is the
  text of the token, there are \<open>l\<close> entries, and each of them, alone, makes rep return the
  key when the global \<open>k\<close> is the \<open>k\<close> of gen; with \<open>k\<close> unbound each of them raises.
\<close>

lemma gen_returns:
  assumes dig: "digest_ok hl" and l: "set_l (int (length w)) k t delta = Inr l"
    and ok: "draws_ok rnd (length w) k" and k: "0 \<le> k"
  shows "\<exists>p. gen hl rnd w k t delta = Inr (bytes_repr (token rnd), p)
           \<and> length p = nat l
           \<and> (\<forall>i<nat l. \<exists>nonce cipher.
                 p ! i = PTuple [PTuple [PStr nonce, PStr cipher], PList (map PInt (indices rnd i))])
           \<and> (\<forall>e\<in>set p. rep_body hl (Some k) w e = Some (Inr (Some (bytes_repr (token rnd))))
                        \<and> rep_body hl None w e = Some (Inl NameError))"
proof -
  let ?r = "bytes_repr (token rnd)"
  let ?f = "gen_slot hl rnd w k ?r"
  let ?g = "\<lambda>i. projr (?f i)"
  have tk: "\<forall>b\<in>set (token rnd). b < 256" using ok by (simp add: draws_ok_def)
  have slot: "\<exists>nonce cipher.
           ?f i = Inr (PTuple [PTuple [PStr nonce, PStr cipher], PList (map PInt (indices rnd i))])
           \<and> rep_body hl (Some k) w
               (PTuple [PTuple [PStr nonce, PStr cipher], PList (map PInt (indices rnd i))])
             = Some (Inr (Some ?r))" if "i < nat l" for i
    using that ok by (intro gen_slot_returns [OF dig tk]) (simp_all add: draws_ok_def)
  have fg: "?f i = Inr (?g i)" if "i \<in> set [0..<nat l]" for i
    using slot [of i] that by auto
  have loop: "gen_loop hl rnd w k ?r [0..<nat l] = Inr (map ?g [0..<nat l])"
    unfolding gen_loop_collect using fg by (rule collect_Inr)
  have "\<not> k div 8 < 0" using k by (simp add: pos_imp_zdiv_neg_iff)
  then have g: "gen hl rnd w k t delta = Inr (?r, map ?g [0..<nat l])"
    by (simp add: gen_def l loop rbind_def Let_def)
  have shape: "\<exists>nonce cipher.
      map ?g [0..<nat l] ! i = PTuple [PTuple [PStr nonce, PStr cipher], PList (map PInt (indices rnd i))]"
    if "i < nat l" for i
    using slot [OF that] that by auto
  have body: "rep_body hl (Some k) w e = Some (Inr (Some ?r)) \<and> rep_body hl None w e = Some (Inl NameError)"
    if "e \<in> set (map ?g [0..<nat l])" for e
  proof -
    from that obtain i where i: "i < nat l" "e = ?g i" by auto
    with slot [OF i(1)] show ?thesis by (auto simp: rep_body_unbound)
  qed
  from g shape body show ?thesis by fastforce
qed

lemma rep_first:
  "rep_body hl kglobal w e = Some r \<Longrightarrow> rep hl kglobal w (e # p) = r"
  by (simp add: rep_Cons del: rep.simps)

lemma set_l_pos_k: "set_l n k t delta = Inr l \<Longrightarrow> 0 < l \<Longrightarrow> 1 \<le> k"
  by (auto simp: set_l_def split: if_splits)

text \<open>
  Exact-match reproduction holds when the global \<open>k\<close> of rep is the \<open>k\<close> that gen was
  called with (as in the module's own main), and fails with \<open>NameError\<close> when the module
  has no global \<open>k\<close>.
\<close>

lemma rep_after_gen:
  assumes dig: "digest_ok hl" and l: "set_l (int (length w)) k t delta = Inr l" and pos: "0 < l"
    and ok: "draws_ok rnd (length w) k"
    and g: "gen hl rnd w k t delta = Inr (key, p)"
  shows "rep hl (Some k) w p = Inr (Some key) \<and> rep hl None w p = Inl NameError"
proof -
  have k: "0 \<le> k" using set_l_pos_k [OF l pos] by simp
  from gen_returns [OF dig l ok k] g
  have key: "key = bytes_repr (token rnd)" and len: "length p = nat l"
    and body: "\<forall>e\<in>set p. rep_body hl (Some k) w e = Some (Inr (Some key))
                        \<and> rep_body hl None w e = Some (Inl NameError)"
    by auto
  from len pos obtain e q where p: "p = e # q" by (cases p) auto
  with body show ?thesis by (simp add: rep_first del: rep.simps)
qed

subsection \<open>gen and rep at concrete inputs; the key and the helper data\<close>



lemma replicate_16: "replicate 16 x = [x, x, x, x, x, x, x, x, x, x, x, x, x, x, x, x]"
  by (simp add: eval_nat_numeral)

lemma replicate_8: "replicate 8 x = [x, x, x, x, x, x, x, x]"
  by (simp add: eval_nat_numeral)



lemma upt_4: "[0..<4] = [0, 1, 2, 3]"
  by (simp add: upt_rec)


lemma gen_slot_sample:
  "gen_slot sample_hashlib sample_draws [0, 1] 1 [98, 39, 39] 0 = Inr (PTuple [PTuple [PStr (S ''00000000000000000000000000000000''), PStr (S ''622727303030303030303030303030303036de'')], PList [PInt 0]])"
  "gen_slot sample_hashlib sample_draws [0, 1] 1 [98, 39, 39] (Suc 0) = Inr (PTuple [PTuple [PStr (S ''01010101010101010101010101010101''), PStr (S ''622727303030303030303030303030303036cf'')], PList [PInt 1]])"
  "gen_slot sample_hashlib sample_draws [0, 1] 1 [98, 39, 39] 2 = Inr (PTuple [PTuple [PStr (S ''02020202020202020202020202020202''), PStr (S ''6227273030303030303030303030303030373e'')], PList [PInt 0]])"
  "gen_slot sample_hashlib sample_draws [0, 1] 1 [98, 39, 39] 3 = Inr (PTuple [PTuple [PStr (S ''03030303030303030303030303030303''), PStr (S ''6227273030303030303030303030303030372f'')], PList [PInt 1]])"
  by (simp_all add: gen_slot_def lock_def sample_draws_def replicate_16 rep_eval py_eval)

lemma gen_sample:
  "gen sample_hashlib sample_draws [0, 1] 1 1 1 =
     Inr ([98, 39, 39],
     [PTuple [PTuple [PStr (S ''00000000000000000000000000000000''), PStr (S ''622727303030303030303030303030303036de'')], PList [PInt 0]],
      PTuple [PTuple [PStr (S ''01010101010101010101010101010101''), PStr (S ''622727303030303030303030303030303036cf'')], PList [PInt 1]],
      PTuple [PTuple [PStr (S ''02020202020202020202020202020202''), PStr (S ''6227273030303030303030303030303030373e'')], PList [PInt 0]],
      PTuple [PTuple [PStr (S ''03030303030303030303030303030303''), PStr (S ''6227273030303030303030303030303030372f'')], PList [PInt 1]]])"
proof -
  have "bytes_repr (token sample_draws) = [98, 39, 39]"
    by (simp add: bytes_repr_def sample_draws_def)
  then show ?thesis
    using set_l_2_1_1_1
    by (simp add: gen_def rbind_def Let_def gen_loop_collect upt_4 gen_slot_sample
          del: gen_loop.simps)
qed

text \<open>
  Claim C1 (exact-match reproduction) at a failing input. gen is called on the reading
  \<open>[0, 1]\<close> with \<open>k = 1\<close>, \<open>t = 1\<close>, \<open>delta = 1\<close> (four lockers) and returns the key text
  \<open>b''\<close> and the helper data below; rep is then called on the same reading, in a module
  that has no global \<open>k\<close> (the module imported, not run as a script). Line 111 of rep
  reads the name \<open>k\<close>, which is not a parameter of rep, and raises \<open>NameError\<close>. Lemma
  \<open>rep_after_gen\<close> shows that rep returns the key when a global \<open>k\<close> equal to the \<open>k\<close> of
  gen exists.
\<close>

theorem rep_after_gen_unbound_k:
  "gen sample_hashlib sample_draws [0, 1] 1 1 1 =
     Inr ([98, 39, 39],
     [PTuple [PTuple [PStr (S ''00000000000000000000000000000000''), PStr (S ''622727303030303030303030303030303036de'')], PList [PInt 0]],
      PTuple [PTuple [PStr (S ''01010101010101010101010101010101''), PStr (S ''622727303030303030303030303030303036cf'')], PList [PInt 1]],
      PTuple [PTuple [PStr (S ''02020202020202020202020202020202''), PStr (S ''6227273030303030303030303030303030373e'')], PList [PInt 0]],
      PTuple [PTuple [PStr (S ''03030303030303030303030303030303''), PStr (S ''6227273030303030303030303030303030372f'')], PList [PInt 1]]])
   \<and> rep sample_hashlib None [0, 1]
     [PTuple [PTuple [PStr (S ''00000000000000000000000000000000''), PStr (S ''622727303030303030303030303030303036de'')], PList [PInt 0]],
      PTuple [PTuple [PStr (S ''01010101010101010101010101010101''), PStr (S ''622727303030303030303030303030303036cf'')], PList [PInt 1]],
      PTuple [PTuple [PStr (S ''02020202020202020202020202020202''), PStr (S ''6227273030303030303030303030303030373e'')], PList [PInt 0]],
      PTuple [PTuple [PStr (S ''03030303030303030303030303030303''), PStr (S ''6227273030303030303030303030303030372f'')], PList [PInt 1]]] = Inl NameError"
  using gen_sample by simp







subsection \<open>The round trip of lock and unlock, in general\<close>

lemma lock_InrD:
  assumes "lock hl nb key val s alg = Inr c"
  shows "\<exists>m h. encode (bytes_hex nb @ py_str key) = Inr m
               \<and> hexdigest hl (hash_alg hl alg) m = Some h"
proof (cases "encode (bytes_hex nb @ py_str key)")
  case (Inl e)
  with assms show ?thesis by (simp add: lock_def nonce_key_hash_def rbind_def)
next
  case (Inr m)
  show ?thesis
  proof (cases "hexdigest hl (hash_alg hl alg) m")
    case None
    with Inr assms show ?thesis by (simp add: lock_def nonce_key_hash_def rbind_def)
  next
    case (Some h)
    with Inr show ?thesis by blast
  qed
qed

text \<open>
  Where the round trip holds and where it does not. For an ASCII value that does not start
  with a character below 16, and \<open>s \<ge> 1\<close>: whenever lock returns, unlock with the same key
  returns the value without its trailing characters 0; this is the value exactly when the
  value does not end in the character 0.
\<close>

lemma lock_unlock_round_trip:
  assumes lk: "lock hl nb key val s alg = Inr c"
    and val: "ascii val" and s: "1 \<le> s" and h16: "val = [] \<or> 16 \<le> hd val"
  shows "unlock hl key (PTuple [PStr (fst c), PStr (snd c)]) s alg = Inr (Some (rstrip0 val))"
    and "val = [] \<or> last val \<noteq> 48
         \<Longrightarrow> unlock hl key (PTuple [PStr (fst c), PStr (snd c)]) s alg = Inr (Some val)"
proof -
  obtain m h where enc: "encode (bytes_hex nb @ py_str key) = Inr m"
    and dig: "hexdigest hl (hash_alg hl alg) m = Some h"
    using lock_InrD [OF lk] by blast
  have z: "zeros s \<noteq> []" "hd (zeros s) = 48"
    using s by (simp_all add: zeros_def)
  have ne: "val @ zeros s \<noteq> []" using z by simp
  have hd: "16 \<le> hd (val @ zeros s)"
  proof (cases "val = []")
    case True
    with z show ?thesis by simp
  next
    case False
    with h16 show ?thesis by simp
  qed
  have c: "c = (bytes_hex nb, nat_hex (nat (int h XOR int (hex_value (nibbles (val @ zeros s))))))"
    using lock_returns [OF enc dig val ne] lk by simp
  have t: "tail_slice (val @ zeros s) s = zeros s" using s by (intro tail_slice_zeros) simp
  show r: "unlock hl key (PTuple [PStr (fst c), PStr (snd c)]) s alg = Inr (Some (rstrip0 val))"
    using unlock_of_lock [OF enc dig val ne hd] by (simp add: c t rstrip0_zeros)
  show "unlock hl key (PTuple [PStr (fst c), PStr (snd c)]) s alg = Inr (Some val)"
    if "val = [] \<or> last val \<noteq> 48"
    using r rstrip0_id [OF that] by simp
qed

lemma rstrip0_length: "length (rstrip0 val) \<le> length val"
proof -
  have "length (dropWhile (\<lambda>c. c = 48) (rev val)) \<le> length (rev val)"
    by (rule length_dropWhile_le)
  then show ?thesis by (simp add: rstrip0_def)
qed

lemma rstrip0_ends_in_zero: "rstrip0 (val @ [48]) \<noteq> val @ [48]"
proof
  assume a: "rstrip0 (val @ [48]) = val @ [48]"
  have "rstrip0 (val @ [48]) = rstrip0 val"
    using rstrip0_zeros [of val 1] by (simp add: zeros_def)
  with a have "length (rstrip0 val) = length val + 1" by simp
  with rstrip0_length [of val] show False by simp
qed

text \<open>
  The round trip fails, for every hashlib, key, nonce and \<open>s \<ge> 1\<close>, on every such value
  that ends in the character 0.
\<close>

lemma lock_unlock_loses_trailing_zero:
  assumes lk: "lock hl nb key (val @ [48]) s alg = Inr c"
    and val: "ascii val" and s: "1 \<le> s" and h16: "val = [] \<or> 16 \<le> hd val"
  shows "unlock hl key (PTuple [PStr (fst c), PStr (snd c)]) s alg \<noteq> Inr (Some (val @ [48]))"
proof -
  have a: "ascii (val @ [48])" using val by simp
  have h: "val @ [48] = [] \<or> 16 \<le> hd (val @ [48])"
    using h16 by (cases val) simp_all
  have "unlock hl key (PTuple [PStr (fst c), PStr (snd c)]) s alg
          = Inr (Some (rstrip0 (val @ [48])))"
    using lk a s h by (rule lock_unlock_round_trip(1))
  then show ?thesis using rstrip0_ends_in_zero [of val] by simp
qed

end
